theory Spec2Isabelle
  imports Main
begin

section \<open>The process table\<close>

text \<open>
  \<^verbatim>\<open>processes = {}\<close> is a module-level Python dictionary from a process name to
  \<^verbatim>\<open>{"holds": h, "requests": r}\<close>.  A Python dictionary iterates its keys in insertion
  order and \<^verbatim>\<open>min\<close> over its keys depends on that order, so the table is an association
  list in insertion order; a dictionary has each key once (\<open>wf_store\<close>).  Process names and
  resource names are the JSON strings of the request bodies (section 3 of the
  specification: a process is identified by a string key and holds and requests one
  named resource each).  A name is the list of its characters, and \<^verbatim>\<open>len\<close> of a name is
  the length of that list.
\<close>

record details =
  holds :: string
  requests :: string

type_synonym store = "(string \<times> details) list"

definition wf_store :: "store \<Rightarrow> bool" where
  "wf_store ps \<longleftrightarrow> distinct (map fst ps)"

text \<open>\<^verbatim>\<open>processes[name] = value\<close>: an existing key keeps its place, a new key goes last.\<close>

fun setitem :: "store \<Rightarrow> string \<Rightarrow> details \<Rightarrow> store" where
  "setitem [] k v = [(k, v)]"
| "setitem ((k', v') # ps) k v = (if k' = k then (k, v) # ps else (k', v') # setitem ps k v)"

text \<open>\<^verbatim>\<open>del processes[name]\<close>, for a key that is present.\<close>

fun delitem :: "store \<Rightarrow> string \<Rightarrow> store" where
  "delitem [] k = []"
| "delitem ((k', v') # ps) k = (if k' = k then ps else (k', v') # delitem ps k)"

text \<open>\<^verbatim>\<open>processes[name]\<close> as a lookup that may miss.\<close>

definition getitem :: "store \<Rightarrow> string \<Rightarrow> details option" where
  "getitem ps k = map_of ps k"

section \<open>The directed graph of the detector\<close>

text \<open>
  \<^verbatim>\<open>nx.DiGraph()\<close> keeps, for every node, the dictionary of its successors; both
  dictionaries are in insertion order.  Processes and resources are nodes of one graph
  and share one name space: a process and a resource of the same name are the same node.
  \<^verbatim>\<open>add_edge(u, v)\<close> creates the nodes \<open>u\<close> and \<open>v\<close> when they are new and records \<open>v\<close>
  among the successors of \<open>u\<close>; adding an edge twice changes nothing.
\<close>

type_synonym digraph = "(string \<times> string list) list"

definition nodes :: "digraph \<Rightarrow> string list" where
  "nodes g = map fst g"

definition add_node :: "digraph \<Rightarrow> string \<Rightarrow> digraph" where
  "add_node g u = (if u \<in> set (nodes g) then g else g @ [(u, [])])"

definition add_edge :: "digraph \<Rightarrow> string \<Rightarrow> string \<Rightarrow> digraph" where
  "add_edge g u v =
     map (\<lambda>(n, ss). if n = u then (n, if v \<in> set ss then ss else ss @ [v]) else (n, ss))
       (add_node (add_node g u) v)"

definition succs :: "digraph \<Rightarrow> string \<Rightarrow> string list" where
  "succs g u = (case map_of g u of None \<Rightarrow> [] | Some ss \<Rightarrow> ss)"

text \<open>
  The loop of \<^verbatim>\<open>detect_deadlock\<close>:
  \<^verbatim>\<open>for process, details in processes.items():
      graph.add_edge(process, details["requests"])
      graph.add_edge(details["holds"], process)\<close>
\<close>

fun build_graph :: "digraph \<Rightarrow> store \<Rightarrow> digraph" where
  "build_graph g [] = g"
| "build_graph g ((process, d) # ps) =
     build_graph (add_edge (add_edge g process (requests d)) (holds d) process) ps"

text \<open>
  Modelled from the spec: \<^verbatim>\<open>nx.simple_cycles(graph)\<close> is a routine of the networkx
  library, whose code is not part of the repository.  Section 4.2 of the specification
  names it as the enumeration of all simple cycles of the graph, and the library documents
  it so: it yields the elementary circuits of the graph (closed paths on which no node
  appears twice, a self-loop included), each one once.  The
  enumeration below roots every circuit at its earliest node in the graph's node order:
  \<open>cycles_from g allowed s path\<close> extends the simple path \<open>path\<close>, which starts at \<open>s\<close>,
  through the nodes of \<open>allowed\<close> and reports it whenever an edge leads back to \<open>s\<close>.
\<close>

function cycles_from :: "digraph \<Rightarrow> string list \<Rightarrow> string \<Rightarrow> string list \<Rightarrow> string list list" where
  "cycles_from g allowed s path =
     concat (map (\<lambda>w. if w = s then [path]
                      else if w \<in> set allowed \<and> w \<notin> set path
                        then cycles_from g allowed s (path @ [w])
                        else [])
              (succs g (last path)))"
  by pat_completeness auto
termination
proof (relation "measure (\<lambda>(g, allowed, s, path). card (set allowed - set path))")
  show "wf (measure (\<lambda>(g, allowed, s, path). card (set allowed - set path)))"
    by simp
next
  fix g :: digraph and allowed :: "string list" and s :: string and path :: "string list"
    and w :: string
  assume "w \<in> set allowed \<and> w \<notin> set path"
  then have "set allowed - set (path @ [w]) \<subset> set allowed - set path"
    by auto
  then have "card (set allowed - set (path @ [w])) < card (set allowed - set path)"
    by (simp add: psubset_card_mono)
  then show "((g, allowed, s, path @ [w]), (g, allowed, s, path))
      \<in> measure (\<lambda>(g, allowed, s, path). card (set allowed - set path))"
    by simp
qed

declare cycles_from.simps [simp del]

fun cycles_over :: "digraph \<Rightarrow> string list \<Rightarrow> string list list" where
  "cycles_over g [] = []"
| "cycles_over g (s # rest) = cycles_from g (s # rest) s [s] @ cycles_over g rest"

definition simple_cycles :: "digraph \<Rightarrow> string list list" where
  "simple_cycles g = cycles_over g (nodes g)"

text \<open>
  \<^verbatim>\<open>detect_deadlock\<close>.  \<^verbatim>\<open>simple_cycles\<close> does not raise \<^verbatim>\<open>NetworkXNoCycle\<close>, so the
  \<^verbatim>\<open>except\<close> branch of the source is never taken.
\<close>

definition detect_deadlock :: "store \<Rightarrow> bool" where
  "detect_deadlock ps =
     (if ps = [] then False
      else 0 < length (simple_cycles (build_graph [] ps)))"


section \<open>The HTTP handlers\<close>

text \<open>
  A handler reads and writes the global table, so it takes the table and returns its
  response together with the table it leaves.  A response is the JSON body and the status
  code (200 where the source gives none).  Each constructor of \<open>body\<close> is one of the JSON
  objects the source passes to \<^verbatim>\<open>jsonify\<close>.
\<close>

datatype body =
    Processes store                \<comment> \<open>\<^verbatim>\<open>{"processes": processes}\<close>\<close>
  | Success_process string         \<comment> \<open>\<^verbatim>\<open>{"success": True, "process": process_name}\<close>\<close>
  | Success                        \<comment> \<open>\<^verbatim>\<open>{"success": True}\<close>\<close>
  | Error string                   \<comment> \<open>\<^verbatim>\<open>{"error": text}\<close>\<close>
  | Deadlock bool                  \<comment> \<open>\<^verbatim>\<open>{"deadlock": has_deadlock}\<close>\<close>
  | Message string                 \<comment> \<open>\<^verbatim>\<open>{"message": text}\<close>\<close>
  | Resolved string store          \<comment> \<open>\<^verbatim>\<open>{"resolved": True, "terminated": name, "processes": processes}\<close>\<close>
  | Not_resolved string            \<comment> \<open>\<^verbatim>\<open>{"resolved": False, "message": text}\<close>\<close>
  | Chat_response string           \<comment> \<open>\<^verbatim>\<open>{"response": text}\<close>\<close>
  | Chat_error string string       \<comment> \<open>\<^verbatim>\<open>{"error": text, "fallback": text}\<close>\<close>
  | Internal_error                 \<comment> \<open>an exception that no handler catches\<close>

type_synonym response = "body \<times> nat"

datatype http_method = GET | POST | DELETE

text \<open>
  The JSON object of a POST to \<^verbatim>\<open>/api/processes\<close>.  \<^verbatim>\<open>data.get(field)\<close> is \<^verbatim>\<open>None\<close> for a
  field that is absent (or null) and the string otherwise; \<^verbatim>\<open>None\<close> and the empty string
  are the values that \<^verbatim>\<open>all\<close> takes for false.
\<close>

record add_request =
  process_name :: "string option"
  holds_resource :: "string option"
  requests_resource :: "string option"

definition truthy :: "string option \<Rightarrow> bool" where
  "truthy x = (case x of None \<Rightarrow> False | Some s \<Rightarrow> s \<noteq> [])"

definition handle_processes :: "http_method \<Rightarrow> add_request \<Rightarrow> store \<Rightarrow> response \<times> store" where
  "handle_processes m data ps =
     (case m of
        POST \<Rightarrow>
          (if \<not> list_all truthy [process_name data, holds_resource data, requests_resource data]
           then ((Error ''All fields are required'', 400), ps)
           else ((Success_process (the (process_name data)), 200),
                 setitem ps (the (process_name data))
                   \<lparr>holds = the (holds_resource data),
                    requests = the (requests_resource data)\<rparr>))
      | DELETE \<Rightarrow> ((Success, 200), [])
      | GET \<Rightarrow> ((Processes ps, 200), ps))"

definition detect :: "store \<Rightarrow> response \<times> store" where
  "detect ps = ((Deadlock (detect_deadlock ps), 200), ps)"

text \<open>
  Python's \<^verbatim>\<open>min(iterable, key=f)\<close>: the running best is replaced only by an item whose key
  is strictly smaller, so the first of the minimal items is returned; on an empty
  iterable it raises \<^verbatim>\<open>ValueError\<close>.
\<close>

fun min_by :: "('a \<Rightarrow> nat) \<Rightarrow> 'a list \<Rightarrow> 'a option" where
  "min_by key [] = None"
| "min_by key (x # xs) = Some (foldl (\<lambda>best y. if key y < key best then y else best) x xs)"

text \<open>
  The key of \<^verbatim>\<open>resolve\<close>: \<^verbatim>\<open>lambda x: len(processes[x]["holds"])\<close>.  It is applied to the
  keys of the table only.
\<close>

definition holds_len :: "store \<Rightarrow> string \<Rightarrow> nat" where
  "holds_len ps x = length (holds (the (getitem ps x)))"

definition resolve :: "store \<Rightarrow> response \<times> store" where
  "resolve ps =
     (if ps = [] then ((Message ''No processes to resolve'', 200), ps)
      else if detect_deadlock ps then
        (case min_by (holds_len ps) (map fst ps) of
           None \<Rightarrow> ((Internal_error, 500), ps)
         | Some process_to_terminate \<Rightarrow>
             (let ps' = delitem ps process_to_terminate
              in ((Resolved process_to_terminate ps', 200), ps')))
      else ((Not_resolved ''No deadlock detected'', 200), ps))"

text \<open>The table after \<open>k\<close> calls of \<^verbatim>\<open>resolve\<close> in a row.\<close>

fun resolve_calls :: "nat \<Rightarrow> store \<Rightarrow> store" where
  "resolve_calls 0 ps = ps"
| "resolve_calls (Suc k) ps = resolve_calls k (snd (resolve ps))"

text \<open>
  \<^verbatim>\<open>chat\<close>.  The whole handler is one \<^verbatim>\<open>try\<close> block, and \<^verbatim>\<open>except Exception\<close> answers every
  exception raised in it with status 500, the text of the exception and the fixed
  fallback.  Three places of the block can raise.
  \<^item> \<^verbatim>\<open>data = request.get_json()\<close> raises when the body cannot be read as JSON
    (\<open>Unreadable\<close>, with the text of the exception).
  \<^item> \<^verbatim>\<open>data.get('message', '')\<close> raises \<^verbatim>\<open>AttributeError\<close> when the body is JSON but not an
    object: \<^verbatim>\<open>null\<close>, a list, a string or a number has no \<^verbatim>\<open>get\<close> (\<open>Not_object\<close>, with the
    text of the exception).  For an object it is the message, or the empty string for an
    absent field.
  \<^item> The external model: it is a parameter that, for a prompt, either fails with an error
    text (\<open>Inl\<close>: an exception of \<^verbatim>\<open>model.generate_content\<close> or of reading
    \<^verbatim>\<open>response.text\<close>) or gives its text (\<open>Inr\<close>).  The prompt is a fixed template around
    two values, the table (\<^verbatim>\<open>json.dumps(processes, indent=2)\<close>) and the user's message.
  The \<^verbatim>\<open>return\<close> of the 400 response inside the block raises nothing.
\<close>

record chat_request =
  message :: "string option"

datatype chat_body =
    Unreadable string
  | Not_object string
  | Object chat_request

type_synonym prompt = "store \<times> string"

definition fallback :: string where
  "fallback = ''Basic deadlock resolution: Terminate the process holding the fewest resources.''"

definition chat :: "(prompt \<Rightarrow> string + string) \<Rightarrow> chat_body \<Rightarrow> store \<Rightarrow> response \<times> store" where
  "chat generate_content body ps =
     (case body of
        Unreadable e \<Rightarrow> ((Chat_error e fallback, 500), ps)
      | Not_object e \<Rightarrow> ((Chat_error e fallback, 500), ps)
      | Object data \<Rightarrow>
          (let user_message = (case message data of None \<Rightarrow> [] | Some m \<Rightarrow> m)
           in if user_message = [] then ((Error ''Message is required'', 400), ps)
              else (case generate_content (ps, user_message) of
                      Inr text \<Rightarrow> ((Chat_response text, 200), ps)
                    | Inl e \<Rightarrow> ((Chat_error e fallback, 500), ps))))"

section \<open>The notions of the specification\<close>

text \<open>
  The resource-allocation graph as section 4.2 words it: for each process entry, one edge
  from its held resource to the process and one edge from the process to its requested
  resource.  A directed cycle is a closed walk with at least one edge; a self-loop is one.
\<close>

definition rag_edges :: "store \<Rightarrow> (string \<times> string) set" where
  "rag_edges ps = (\<Union>(p, d) \<in> set ps. {(holds d, p), (p, requests d)})"

definition has_directed_cycle :: "(string \<times> string) set \<Rightarrow> bool" where
  "has_directed_cycle E \<longleftrightarrow> (\<exists>v. (v, v) \<in> E\<^sup>+)"

text \<open>
  A table with an \<open>n\<close>-process cycle: \<open>n\<close> different entries of the table that, in some
  arrangement, each request the resource that the next one holds, the last one the
  resource of the first.  The table may have other entries.
\<close>

definition has_n_process_cycle :: "nat \<Rightarrow> store \<Rightarrow> bool" where
  "has_n_process_cycle n ps \<longleftrightarrow>
     (\<exists>qs. distinct qs \<and> set qs \<subseteq> set ps \<and> length qs = n \<and> 0 < n \<and>
        map (requests \<circ> snd) qs = rotate1 (map (holds \<circ> snd) qs))"

text \<open>
  Tables for the scenarios: the two-process deadlock of section 8, the same with a third
  process that waits for nobody, a chain without a cycle, and the two-process deadlock
  with two processes that wait for nobody.
\<close>

definition two_process_deadlock :: store where
  "two_process_deadlock =
     [(''P1'', \<lparr>holds = ''R1'', requests = ''R2''\<rparr>),
      (''P2'', \<lparr>holds = ''R2'', requests = ''R1''\<rparr>)]"

definition deadlock_with_bystander :: store where
  "deadlock_with_bystander =
     [(''P1'', \<lparr>holds = ''R1'', requests = ''R2''\<rparr>),
      (''P2'', \<lparr>holds = ''R2'', requests = ''R1''\<rparr>),
      (''P3'', \<lparr>holds = ''A'', requests = ''B''\<rparr>)]"

definition waiting_chain :: store where
  "waiting_chain =
     [(''P1'', \<lparr>holds = ''R1'', requests = ''R2''\<rparr>),
      (''P2'', \<lparr>holds = ''R2'', requests = ''R3''\<rparr>)]"

definition deadlock_with_two_bystanders :: store where
  "deadlock_with_two_bystanders =
     [(''P1'', \<lparr>holds = ''R1'', requests = ''R2''\<rparr>),
      (''P2'', \<lparr>holds = ''R2'', requests = ''R1''\<rparr>),
      (''P3'', \<lparr>holds = ''A'', requests = ''B''\<rparr>),
      (''P4'', \<lparr>holds = ''C'', requests = ''D''\<rparr>)]"

section \<open>Auxiliary notions of the proofs\<close>

text \<open>The edge relation of a graph value, and the graphs whose edges join nodes of theirs.\<close>

definition edges :: "digraph \<Rightarrow> (string \<times> string) set" where
  "edges g = {(u, v). v \<in> set (succs g u)}"

definition closed_graph :: "digraph \<Rightarrow> bool" where
  "closed_graph g \<longleftrightarrow> edges g \<subseteq> set (nodes g) \<times> set (nodes g)"

text \<open>A walk from \<open>u\<close> to \<open>v\<close> along \<open>R\<close> with the inner nodes \<open>ws\<close>.\<close>

fun is_walk :: "(string \<times> string) set \<Rightarrow> string \<Rightarrow> string list \<Rightarrow> string \<Rightarrow> bool" where
  "is_walk R u [] v \<longleftrightarrow> (u, v) \<in> R"
| "is_walk R u (w # ws) v \<longleftrightarrow> (u, w) \<in> R \<and> is_walk R w ws v"

section \<open>The graph that the detector builds\<close>

lemma nodes_add_node: "set (nodes (add_node g u)) = insert u (set (nodes g))"
  by (auto simp: add_node_def nodes_def)

lemma distinct_add_node: "distinct (nodes g) \<Longrightarrow> distinct (nodes (add_node g u))"
  by (auto simp: add_node_def nodes_def)

lemma succs_add_node: "succs (add_node g u) x = succs g x"
  by (auto simp: add_node_def succs_def split: option.splits if_splits)

lemma nodes_map_snd: "nodes (map (\<lambda>(n, ss). if n = u then (n, f ss) else (n, ss)) g) = nodes g"
  by (induction g) (auto simp: nodes_def)

lemma map_of_map_snd:
  "map_of (map (\<lambda>(n, ss). if n = u then (n, f ss) else (n, ss)) g) x =
     (if x = u then map_option f (map_of g x) else map_of g x)"
  by (induction g) auto

lemma nodes_add_edge: "nodes (add_edge g u v) = nodes (add_node (add_node g u) v)"
  unfolding add_edge_def by (rule nodes_map_snd)

lemma set_nodes_add_edge: "set (nodes (add_edge g u v)) = insert u (insert v (set (nodes g)))"
  by (auto simp: nodes_add_edge nodes_add_node)

lemma distinct_add_edge: "distinct (nodes g) \<Longrightarrow> distinct (nodes (add_edge g u v))"
  by (simp add: nodes_add_edge distinct_add_node)

lemma succs_add_edge:
  "succs (add_edge g u v) x =
     (if x = u then (if v \<in> set (succs g u) then succs g u else succs g u @ [v]) else succs g x)"
proof -
  let ?h = "add_node (add_node g u) v"
  have in_nodes: "u \<in> set (nodes ?h)"
    by (simp add: nodes_add_node)
  then have "map_of ?h u \<noteq> None"
    by (simp add: nodes_def map_of_eq_None_iff)
  then obtain ss where ss: "map_of ?h u = Some ss"
    by blast
  have same: "succs ?h y = succs g y" for y
    by (simp add: succs_add_node)
  from ss have "succs ?h u = ss" by (simp add: succs_def)
  with same have ss_eq: "ss = succs g u" by simp
  show ?thesis
  proof (cases "x = u")
    case True
    then show ?thesis
      using ss ss_eq by (simp add: add_edge_def succs_def map_of_map_snd)
  next
    case False
    then show ?thesis
      using same[of x] by (simp add: add_edge_def succs_def map_of_map_snd)
  qed
qed

lemma edges_add_edge: "edges (add_edge g u v) = insert (u, v) (edges g)"
  by (auto simp: edges_def succs_add_edge split: if_splits)

lemma edges_empty: "edges [] = {}"
  by (simp add: edges_def succs_def)

lemma closed_graph_add_edge: "closed_graph g \<Longrightarrow> closed_graph (add_edge g u v)"
  by (auto simp: closed_graph_def edges_add_edge set_nodes_add_edge)

lemma rag_edges_Cons:
  "rag_edges ((p, d) # ps) = insert (holds d, p) (insert (p, requests d) (rag_edges ps))"
  by (auto simp: rag_edges_def)

lemma edges_build_graph: "edges (build_graph g ps) = edges g \<union> rag_edges ps"
proof (induction ps arbitrary: g)
  case Nil
  show ?case by (simp add: rag_edges_def)
next
  case (Cons a ps)
  obtain p d where a: "a = (p, d)" by (cases a)
  show ?case
    unfolding a by (simp add: Cons.IH edges_add_edge rag_edges_Cons)
qed

lemma closed_build_graph: "closed_graph g \<Longrightarrow> closed_graph (build_graph g ps)"
proof (induction ps arbitrary: g)
  case Nil
  then show ?case by simp
next
  case (Cons a ps)
  obtain p d where a: "a = (p, d)" by (cases a)
  show ?case
    unfolding a using Cons.prems by (simp add: Cons.IH closed_graph_add_edge)
qed

lemma closed_graph_empty: "closed_graph []"
  by (simp add: closed_graph_def edges_empty)

section \<open>The enumeration of cycles is sound and complete\<close>

lemma concat_map_nonempty: "concat (map f xs) \<noteq> [] \<longleftrightarrow> (\<exists>x \<in> set xs. f x \<noteq> [])"
  by (induction xs) auto

lemma cycles_from_sound:
  "cycles_from g allowed s path \<noteq> [] \<Longrightarrow> (s, last path) \<in> (edges g)\<^sup>* \<Longrightarrow> (s, s) \<in> (edges g)\<^sup>+"
proof (induction g allowed s path rule: cycles_from.induct)
  case (1 g allowed s path)
  from "1.prems"(1) obtain w where w: "w \<in> set (succs g (last path))"
    and ne: "(if w = s then [path]
              else if w \<in> set allowed \<and> w \<notin> set path
                then cycles_from g allowed s (path @ [w]) else []) \<noteq> []"
    unfolding cycles_from.simps[of g allowed s path] concat_map_nonempty by blast
  from w have e: "(last path, w) \<in> edges g"
    by (simp add: edges_def)
  show ?case
  proof (cases "w = s")
    case True
    with e "1.prems"(2) show ?thesis by (auto intro: rtrancl_into_trancl1)
  next
    case False
    with ne have a: "w \<in> set allowed \<and> w \<notin> set path"
      and r: "cycles_from g allowed s (path @ [w]) \<noteq> []"
      by (auto split: if_splits)
    from "1.prems"(2) e have "(s, last (path @ [w])) \<in> (edges g)\<^sup>*"
      by (auto intro: rtrancl_into_rtrancl)
    with "1.IH"[OF w False a r] show ?thesis .
  qed
qed

lemma cycles_over_sound: "cycles_over g ns \<noteq> [] \<Longrightarrow> \<exists>v. (v, v) \<in> (edges g)\<^sup>+"
proof (induction ns)
  case Nil
  then show ?case by simp
next
  case (Cons s rest)
  show ?case
  proof (cases "cycles_from g (s # rest) s [s] = []")
    case True
    with Cons show ?thesis by simp
  next
    case False
    then have "(s, s) \<in> (edges g)\<^sup>+"
      by (rule cycles_from_sound) simp
    then show ?thesis ..
  qed
qed

lemma is_walk_suffix: "is_walk R u (as @ w # bs) v \<Longrightarrow> is_walk R w bs v"
  by (induction as arbitrary: u) auto

lemma trancl_simple_walk:
  "(u, v) \<in> R\<^sup>+ \<Longrightarrow> \<exists>ws. is_walk R u ws v \<and> distinct ws \<and> u \<notin> set ws \<and> v \<notin> set ws"
proof (induction rule: converse_trancl_induct)
  case (base u)
  then have "is_walk R u [] v" by simp
  then show ?case by (intro exI[of _ "[]"]) simp
next
  case (step u w)
  from step.IH obtain ws where ws: "is_walk R w ws v" "distinct ws" "w \<notin> set ws" "v \<notin> set ws"
    by blast
  show ?case
  proof (cases "w = v")
    case True
    with step.hyps(1) have "is_walk R u [] v" by simp
    then show ?thesis by (intro exI[of _ "[]"]) simp
  next
    case wv: False
    show ?thesis
    proof (cases "u = w")
      case True
      with ws show ?thesis by blast
    next
      case uw: False
      show ?thesis
      proof (cases "u \<in> set ws")
        case True
        then obtain as bs where split: "ws = as @ u # bs"
          by (auto simp: in_set_conv_decomp)
        with ws(1) have "is_walk R u bs v" by (auto dest: is_walk_suffix)
        moreover from split ws have "distinct bs" "u \<notin> set bs" "v \<notin> set bs" by auto
        ultimately show ?thesis by blast
      next
        case False
        with ws step.hyps(1) uw wv have "is_walk R u (w # ws) v \<and> distinct (w # ws) \<and> u \<notin> set (w # ws) \<and> v \<notin> set (w # ws)"
          by auto
        then show ?thesis by blast
      qed
    qed
  qed
qed

lemma cycles_from_complete:
  "is_walk (Restr (edges g) (set allowed)) (last path) ws s \<Longrightarrow> distinct (path @ ws) \<Longrightarrow>
   path \<noteq> [] \<Longrightarrow> hd path = s \<Longrightarrow> cycles_from g allowed s path \<noteq> []"
proof (induction ws arbitrary: path)
  case Nil
  then have "s \<in> set (succs g (last path))"
    by (simp add: edges_def)
  then show ?case
    unfolding cycles_from.simps[of g allowed s path] concat_map_nonempty
    by (intro bexI[of _ s]) auto
next
  case (Cons w ws)
  from Cons.prems(1) have e: "w \<in> set (succs g (last path))" and wa: "w \<in> set allowed"
    and walk: "is_walk (Restr (edges g) (set allowed)) w ws s"
    by (auto simp: edges_def)
  from Cons.prems(2) have wp: "w \<notin> set path" by auto
  from Cons.prems(3,4) have "s \<in> set path" by (cases path) auto
  with wp have ws_ne: "w \<noteq> s" by auto
  have "cycles_from g allowed s (path @ [w]) \<noteq> []"
  proof (rule Cons.IH)
    show "is_walk (Restr (edges g) (set allowed)) (last (path @ [w])) ws s"
      using walk by simp
    show "distinct ((path @ [w]) @ ws)" using Cons.prems(2) by simp
    show "path @ [w] \<noteq> []" by simp
    show "hd (path @ [w]) = s" using Cons.prems(3,4) by simp
  qed
  with e wa wp ws_ne show ?case
    unfolding cycles_from.simps[of g allowed s path] concat_map_nonempty
    by (intro bexI[of _ w]) auto
qed

lemma trancl_avoid:
  "(a, b) \<in> (Restr E (insert n A))\<^sup>+ \<Longrightarrow>
   (a, b) \<in> (Restr E A)\<^sup>+ \<or> ((a, n) \<in> (Restr E (insert n A))\<^sup>* \<and> (n, b) \<in> (Restr E (insert n A))\<^sup>*)"
proof (induction rule: trancl_induct)
  case (base b)
  then show ?case by (cases "a = n \<or> b = n") auto
next
  case (step b c)
  from step.IH show ?case
  proof
    assume ab: "(a, b) \<in> (Restr E A)\<^sup>+"
    show ?thesis
    proof (cases "b = n \<or> c = n")
      case True
      then show ?thesis
        using step.hyps by (auto intro: trancl_into_rtrancl rtrancl_into_rtrancl)
    next
      case False
      with step.hyps(2) have "(b, c) \<in> Restr E A" by auto
      with ab show ?thesis by (auto intro: trancl_into_trancl)
    qed
  next
    assume "(a, n) \<in> (Restr E (insert n A))\<^sup>* \<and> (n, b) \<in> (Restr E (insert n A))\<^sup>*"
    with step.hyps(2) show ?thesis by (auto intro: rtrancl_into_rtrancl)
  qed
qed

lemma cycles_over_complete:
  "(v, v) \<in> (Restr (edges g) (set ns))\<^sup>+ \<Longrightarrow> cycles_over g ns \<noteq> []"
proof (induction ns)
  case Nil
  then show ?case by simp
next
  case (Cons s rest)
  let ?R = "Restr (edges g) (set (s # rest))"
  from Cons.prems have "(v, v) \<in> (Restr (edges g) (insert s (set rest)))\<^sup>+" by simp
  from trancl_avoid[OF this]
  have "(v, v) \<in> (Restr (edges g) (set rest))\<^sup>+ \<or> ((v, s) \<in> ?R\<^sup>* \<and> (s, v) \<in> ?R\<^sup>*)"
    by simp
  then show ?case
  proof
    assume "(v, v) \<in> (Restr (edges g) (set rest))\<^sup>+"
    then have "cycles_over g rest \<noteq> []" by (rule Cons.IH)
    then show ?thesis by simp
  next
    assume vs: "(v, s) \<in> ?R\<^sup>* \<and> (s, v) \<in> ?R\<^sup>*"
    with Cons.prems have "(s, s) \<in> ?R\<^sup>+"
      by (meson rtrancl_trancl_trancl trancl_rtrancl_trancl)
    then obtain ws where ws: "is_walk ?R s ws s" "distinct ws" "s \<notin> set ws"
      using trancl_simple_walk by blast
    have "cycles_from g (s # rest) s [s] \<noteq> []"
    proof (rule cycles_from_complete)
      show "is_walk ?R (last [s]) ws s" using ws(1) by simp
      show "distinct ([s] @ ws)" using ws(2,3) by simp
    qed simp_all
    then show ?thesis by simp
  qed
qed

lemma simple_cycles_nonempty_iff:
  assumes "closed_graph g"
  shows "simple_cycles g \<noteq> [] \<longleftrightarrow> has_directed_cycle (edges g)"
proof
  assume "simple_cycles g \<noteq> []"
  then show "has_directed_cycle (edges g)"
    unfolding simple_cycles_def has_directed_cycle_def by (rule cycles_over_sound)
next
  assume "has_directed_cycle (edges g)"
  then obtain v where v: "(v, v) \<in> (edges g)\<^sup>+"
    unfolding has_directed_cycle_def by blast
  from assms have "Restr (edges g) (set (nodes g)) = edges g"
    unfolding closed_graph_def by blast
  with v have "(v, v) \<in> (Restr (edges g) (set (nodes g)))\<^sup>+" by simp
  then show "simple_cycles g \<noteq> []"
    unfolding simple_cycles_def by (rule cycles_over_complete)
qed

lemma has_directed_cycle_empty: "\<not> has_directed_cycle {}"
  by (simp add: has_directed_cycle_def)

section \<open>The table operations\<close>

lemma getitem_setitem_same: "getitem (setitem ps k v) k = Some v"
  by (induction ps k v rule: setitem.induct) (auto simp: getitem_def)


lemma keys_setitem: "set (map fst (setitem ps k v)) = insert k (set (map fst ps))"
  by (induction ps k v rule: setitem.induct) auto

lemma wf_store_setitem: "wf_store ps \<Longrightarrow> wf_store (setitem ps k v)"
proof (induction ps k v rule: setitem.induct)
  case (1 k v)
  then show ?case by (simp add: wf_store_def)
next
  case (2 k' v' ps k v)
  then show ?case
    using keys_setitem[of ps k v] by (auto simp: wf_store_def)
qed

lemma length_delitem: "k \<in> set (map fst ps) \<Longrightarrow> Suc (length (delitem ps k)) = length ps"
  by (induction ps k rule: delitem.induct) auto

lemma getitem_delitem_other: "k' \<noteq> k \<Longrightarrow> getitem (delitem ps k) k' = getitem ps k'"
  by (induction ps k rule: delitem.induct) (auto simp: getitem_def)

lemma delitem_filter: "wf_store ps \<Longrightarrow> delitem ps k = filter (\<lambda>e. fst e \<noteq> k) ps"
proof (induction ps k rule: delitem.induct)
  case (1 k)
  then show ?case by simp
next
  case (2 k' v' ps k)
  show ?case
  proof (cases "k' = k")
    case True
    with "2.prems" have "\<forall>e \<in> set ps. fst e \<noteq> k" by (auto simp: wf_store_def)
    then have "filter (\<lambda>e. fst e \<noteq> k) ps = ps" by (simp add: filter_id_conv)
    with True show ?thesis by simp
  next
    case False
    with "2.prems" "2.IH" show ?thesis by (simp add: wf_store_def)
  qed
qed

lemma getitem_delitem_same: "wf_store ps \<Longrightarrow> getitem (delitem ps k) k = None"
  by (auto simp: delitem_filter getitem_def map_of_eq_None_iff)

lemma wf_store_delitem: "wf_store ps \<Longrightarrow> wf_store (delitem ps k)"
  by (simp add: delitem_filter) (simp add: wf_store_def distinct_map_filter)

section \<open>The victim of the resolution\<close>

lemma foldl_first_min:
  fixes key :: "'a \<Rightarrow> nat"
  shows "\<exists>pre post. x # xs = pre @ foldl (\<lambda>best y. if key y < key best then y else best) x xs # post \<and>
     (\<forall>y \<in> set pre. key (foldl (\<lambda>best y. if key y < key best then y else best) x xs) < key y) \<and>
     (\<forall>y \<in> set post. key (foldl (\<lambda>best y. if key y < key best then y else best) x xs) \<le> key y)"
proof (induction xs rule: rev_induct)
  case Nil
  show ?case by (intro exI[of _ "[]"]) simp
next
  case (snoc z xs)
  let ?step = "\<lambda>best y. if key y < key best then y else best"
  let ?t = "foldl ?step x xs"
  from snoc.IH obtain pre post where dec: "x # xs = pre @ ?t # post"
    and pre: "\<forall>y \<in> set pre. key ?t < key y" and post: "\<forall>y \<in> set post. key ?t \<le> key y"
    by blast
  show ?case
  proof (cases "key z < key ?t")
    case True
    then have t': "foldl ?step x (xs @ [z]) = z" by simp
    have "\<forall>y \<in> set (x # xs). key z < key y"
    proof
      fix y assume "y \<in> set (x # xs)"
      then have "y \<in> set pre \<or> y = ?t \<or> y \<in> set post" unfolding dec by auto
      with pre post True show "key z < key y" by force
    qed
    then have "x # xs @ [z] = (x # xs) @ z # [] \<and> (\<forall>y \<in> set (x # xs). key z < key y) \<and>
        (\<forall>y \<in> set []. key z \<le> key y)"
      by simp
    then show ?thesis unfolding t' by blast
  next
    case False
    then have t': "foldl ?step x (xs @ [z]) = ?t" by simp
    from dec have "x # xs @ [z] = pre @ ?t # (post @ [z])" by simp
    moreover from post False have "\<forall>y \<in> set (post @ [z]). key ?t \<le> key y" by auto
    ultimately show ?thesis unfolding t' using pre by blast
  qed
qed

lemma min_by_first_min:
  assumes "xs \<noteq> []"
  shows "\<exists>t pre post. min_by key xs = Some t \<and> xs = pre @ t # post \<and>
     (\<forall>y \<in> set pre. key t < key y) \<and> (\<forall>y \<in> set post. key t \<le> key y)"
proof -
  from assms obtain x xs' where xs: "xs = x # xs'" by (cases xs) auto
  show ?thesis
    unfolding xs using foldl_first_min[of x xs' key] by simp
qed

lemma resolve_deadlock:
  assumes "detect_deadlock ps"
  shows "\<exists>t pre post. resolve ps = ((Resolved t (delitem ps t), 200), delitem ps t) \<and>
     map fst ps = pre @ t # post \<and>
     (\<forall>k \<in> set pre. holds_len ps t < holds_len ps k) \<and>
     (\<forall>k \<in> set post. holds_len ps t \<le> holds_len ps k)"
proof -
  from assms have ne: "ps \<noteq> []" by (auto simp: detect_deadlock_def)
  then have "map fst ps \<noteq> []" by simp
  from min_by_first_min[OF this, of "holds_len ps"]
  obtain t pre post where t: "min_by (holds_len ps) (map fst ps) = Some t"
    and rest: "map fst ps = pre @ t # post" "\<forall>k \<in> set pre. holds_len ps t < holds_len ps k"
      "\<forall>k \<in> set post. holds_len ps t \<le> holds_len ps k"
    by blast
  from ne assms t have "resolve ps = ((Resolved t (delitem ps t), 200), delitem ps t)"
    by (simp add: resolve_def Let_def)
  with rest show ?thesis by blast
qed

lemma holds_len_entry: "wf_store ps \<Longrightarrow> (k, d) \<in> set ps \<Longrightarrow> holds_len ps k = length (holds d)"
  by (simp add: holds_len_def getitem_def wf_store_def)

lemma length_resolve: "detect_deadlock ps \<Longrightarrow> Suc (length (snd (resolve ps))) = length ps"
proof -
  assume "detect_deadlock ps"
  from resolve_deadlock[OF this] obtain t pre post
    where r: "resolve ps = ((Resolved t (delitem ps t), 200), delitem ps t)"
      and k: "map fst ps = pre @ t # post" by blast
  from k have "t \<in> set (map fst ps)" by simp
  then show ?thesis using r by (simp add: length_delitem)
qed

lemma detect_deadlock_Nil: "\<not> detect_deadlock []"
  by (simp add: detect_deadlock_def)

lemma resolve_calls_bound: "\<exists>k\<le>length ps. \<not> detect_deadlock (resolve_calls k ps)"
proof (induction "length ps" arbitrary: ps)
  case 0
  then have "\<not> detect_deadlock (resolve_calls 0 ps)" by (simp add: detect_deadlock_Nil)
  then show ?case by blast
next
  case (Suc n)
  show ?case
  proof (cases "detect_deadlock ps")
    case False
    then have "\<not> detect_deadlock (resolve_calls 0 ps)" by simp
    then show ?thesis by blast
  next
    case True
    from length_resolve[OF True] Suc.hyps(2) have "n = length (snd (resolve ps))" by simp
    from Suc.hyps(1)[OF this] obtain k where k: "k \<le> length (snd (resolve ps))"
      and nd: "\<not> detect_deadlock (resolve_calls k (snd (resolve ps)))" by blast
    from nd have "\<not> detect_deadlock (resolve_calls (Suc k) ps)" by simp
    moreover from k length_resolve[OF True] have "Suc k \<le> length ps" by simp
    ultimately show ?thesis by blast
  qed
qed

lemma split_at_key:
  "map fst ps = pre @ t # post \<Longrightarrow>
   \<exists>ps1 d ps2. ps = ps1 @ (t, d) # ps2 \<and> map fst ps1 = pre \<and> map fst ps2 = post"
  by (fastforce simp: map_eq_append_conv map_eq_Cons_conv)

lemma delitem_at_key: "t \<notin> fst ` set ps1 \<Longrightarrow> delitem (ps1 @ (t, d) # ps2) t = ps1 @ ps2"
  by (induction ps1) auto

lemma resolve_victim_entry:
  assumes wf: "wf_store ps" and dl: "detect_deadlock ps"
  shows "\<exists>ps1 t d ps2. ps = ps1 @ (t, d) # ps2 \<and>
     resolve ps = ((Resolved t (ps1 @ ps2), 200), ps1 @ ps2) \<and>
     (\<forall>(k, e) \<in> set ps1. length (holds d) < length (holds e)) \<and>
     (\<forall>(k, e) \<in> set ps2. length (holds d) \<le> length (holds e))"
proof -
  from resolve_deadlock[OF dl] obtain t pre post
    where r: "resolve ps = ((Resolved t (delitem ps t), 200), delitem ps t)"
      and keys: "map fst ps = pre @ t # post"
      and pre: "\<forall>k \<in> set pre. holds_len ps t < holds_len ps k"
      and post: "\<forall>k \<in> set post. holds_len ps t \<le> holds_len ps k"
    by blast
  from split_at_key[OF keys] obtain ps1 d ps2
    where ps: "ps = ps1 @ (t, d) # ps2" and k1: "map fst ps1 = pre" and k2: "map fst ps2 = post"
    by blast
  from wf ps have "t \<notin> fst ` set ps1" by (auto simp: wf_store_def)
  then have del: "delitem ps t = ps1 @ ps2" unfolding ps by (rule delitem_at_key)
  have len: "holds_len ps k = length (holds e)" if "(k, e) \<in> set ps" for k e
    using wf that by (rule holds_len_entry)
  have lt: "holds_len ps t = length (holds d)"
    by (rule len) (simp add: ps)
  have "\<forall>(k, e) \<in> set ps1. length (holds d) < length (holds e)"
  proof (clarify)
    fix k e assume ke: "(k, e) \<in> set ps1"
    then have "k \<in> set pre" using k1 by force
    with pre have "holds_len ps t < holds_len ps k" by blast
    moreover from ke have "holds_len ps k = length (holds e)" by (intro len) (simp add: ps)
    ultimately show "length (holds d) < length (holds e)" using lt by simp
  qed
  moreover have "\<forall>(k, e) \<in> set ps2. length (holds d) \<le> length (holds e)"
  proof (clarify)
    fix k e assume ke: "(k, e) \<in> set ps2"
    then have "k \<in> set post" using k2 by force
    with post have "holds_len ps t \<le> holds_len ps k" by blast
    moreover from ke have "holds_len ps k = length (holds e)" by (intro len) (simp add: ps)
    ultimately show "length (holds d) \<le> length (holds e)" using lt by simp
  qed
  ultimately show ?thesis using ps r del by auto
qed

section \<open>The scenario tables\<close>

lemma wf_two_process_deadlock: "wf_store two_process_deadlock"
  by (simp add: wf_store_def two_process_deadlock_def)

lemma detect_two_process_deadlock: "detect_deadlock two_process_deadlock"
  by code_simp

lemma wf_deadlock_with_bystander: "wf_store deadlock_with_bystander"
  by (simp add: wf_store_def deadlock_with_bystander_def)

lemma detect_deadlock_with_bystander: "detect_deadlock deadlock_with_bystander"
  by code_simp

lemma resolve_deadlock_with_bystander:
  "resolve deadlock_with_bystander = ((Resolved ''P3'' two_process_deadlock, 200), two_process_deadlock)"
  by code_simp

lemma bystander_on_no_cycle: "(''P3'', ''P3'') \<notin> (rag_edges deadlock_with_bystander)\<^sup>+"
proof
  let ?E = "rag_edges deadlock_with_bystander"
  have E: "?E = {(''A'', ''P3''), (''P3'', ''B''), (''R2'', ''P2''), (''P2'', ''R1''),
      (''R1'', ''P1''), (''P1'', ''R2'')}"
    by (simp add: rag_edges_def deadlock_with_bystander_def)
  assume "(''P3'', ''P3'') \<in> ?E\<^sup>+"
  then obtain z where z: "(''P3'', z) \<in> ?E" and ret: "(z, ''P3'') \<in> ?E\<^sup>*"
    by (blast dest: tranclD)
  from z have "z = ''B''" unfolding E by simp
  with ret have "(''B'', ''P3'') \<in> ?E\<^sup>*" by simp
  then show False
  proof (cases rule: converse_rtranclE)
    case base
    then show False by simp
  next
    case (step y)
    then show False unfolding E by simp
  qed
qed

section \<open>Processes in a cycle\<close>

lemma rag_edges_mono: "set qs \<subseteq> set ps \<Longrightarrow> rag_edges qs \<subseteq> rag_edges ps"
  by (auto simp: rag_edges_def)

lemma rag_edges_nth:
  assumes "i < length qs"
  shows "(holds (snd (qs ! i)), requests (snd (qs ! i))) \<in> (rag_edges qs)\<^sup>+"
proof -
  obtain p d where pd: "qs ! i = (p, d)" by (cases "qs ! i")
  with assms have "(p, d) \<in> set qs" by (metis nth_mem)
  then have "(holds d, p) \<in> rag_edges qs" and "(p, requests d) \<in> rag_edges qs"
    by (auto simp: rag_edges_def)
  then have "(holds d, requests d) \<in> (rag_edges qs)\<^sup>+"
    by (rule trancl_into_trancl2[OF _ r_into_trancl])
  with pd show ?thesis by simp
qed

lemma arrangement_has_cycle:
  assumes pos: "0 < length qs"
    and rot: "map (requests \<circ> snd) qs = rotate1 (map (holds \<circ> snd) qs)"
  shows "has_directed_cycle (rag_edges qs)"
proof -
  let ?n = "length qs"
  let ?h = "\<lambda>i. holds (snd (qs ! i))"
  have step: "(?h i, ?h (Suc i mod ?n)) \<in> (rag_edges qs)\<^sup>+" if "i < ?n" for i
  proof -
    from that have "requests (snd (qs ! i)) = map (requests \<circ> snd) qs ! i" by simp
    also have "\<dots> = rotate1 (map (holds \<circ> snd) qs) ! i" by (simp only: rot)
    also from that have "\<dots> = map (holds \<circ> snd) qs ! (Suc i mod ?n)"
      by (simp add: nth_rotate1)
    also from pos have "\<dots> = ?h (Suc i mod ?n)" by simp
    finally show ?thesis using rag_edges_nth[of i qs] that by simp
  qed
  have reach: "i < ?n \<Longrightarrow> (?h 0, ?h i) \<in> (rag_edges qs)\<^sup>*" for i
  proof (induction i)
    case 0
    show ?case by simp
  next
    case (Suc i)
    then have "(?h 0, ?h i) \<in> (rag_edges qs)\<^sup>*" by simp
    moreover from Suc.prems step[of i] have "(?h i, ?h (Suc i)) \<in> (rag_edges qs)\<^sup>+" by simp
    ultimately show ?case by (meson rtrancl_trancl_trancl trancl_into_rtrancl)
  qed
  from pos have "(?h 0, ?h (?n - 1)) \<in> (rag_edges qs)\<^sup>*" by (intro reach) simp
  moreover from pos step[of "?n - 1"] have "(?h (?n - 1), ?h 0) \<in> (rag_edges qs)\<^sup>+" by simp
  ultimately have "(?h 0, ?h 0) \<in> (rag_edges qs)\<^sup>+" by (rule rtrancl_trancl_trancl)
  then show ?thesis unfolding has_directed_cycle_def by blast
qed

lemma has_n_process_cycle_has_cycle:
  assumes "has_n_process_cycle n ps"
  shows "has_directed_cycle (rag_edges ps)"
proof -
  from assms obtain qs where sub: "set qs \<subseteq> set ps" and pos: "0 < length qs"
    and rot: "map (requests \<circ> snd) qs = rotate1 (map (holds \<circ> snd) qs)"
    by (auto simp: has_n_process_cycle_def)
  from arrangement_has_cycle[OF pos rot] obtain v where "(v, v) \<in> (rag_edges qs)\<^sup>+"
    by (auto simp: has_directed_cycle_def)
  with trancl_mono[OF _ rag_edges_mono[OF sub]] have "(v, v) \<in> (rag_edges ps)\<^sup>+" by blast
  then show ?thesis by (auto simp: has_directed_cycle_def)
qed

lemma has_n_process_cycle_le:
  assumes "has_n_process_cycle n ps"
  shows "n \<le> length ps"
proof -
  from assms obtain qs where d: "distinct qs" and sub: "set qs \<subseteq> set ps" and l: "length qs = n"
    by (auto simp: has_n_process_cycle_def)
  from d have "length qs = card (set qs)" by (simp add: distinct_card)
  also from sub have "\<dots> \<le> card (set ps)" by (simp add: card_mono)
  also have "\<dots> \<le> length ps" by (rule card_length)
  finally show ?thesis using l by simp
qed

lemma detect_deadlock_has_cycle:
  "detect_deadlock ps \<longleftrightarrow> has_directed_cycle (rag_edges ps)"
proof (cases "ps = []")
  case True
  then show ?thesis
    by (simp add: detect_deadlock_def rag_edges_def has_directed_cycle_empty)
next
  case False
  have "closed_graph (build_graph [] ps)"
    by (intro closed_build_graph closed_graph_empty)
  then have "simple_cycles (build_graph [] ps) \<noteq> [] \<longleftrightarrow>
      has_directed_cycle (edges (build_graph [] ps))"
    by (rule simple_cycles_nonempty_iff)
  then show ?thesis
    using False by (simp add: detect_deadlock_def edges_build_graph edges_empty)
qed

lemma resolve_calls_first_free:
  "\<exists>k\<le>length ps. \<not> detect_deadlock (resolve_calls k ps) \<and>
     (\<forall>j<k. detect_deadlock (resolve_calls j ps)) \<and>
     length (resolve_calls k ps) + k = length ps"
proof (induction "length ps" arbitrary: ps)
  case 0
  then have "\<not> detect_deadlock (resolve_calls 0 ps) \<and>
     (\<forall>j<0. detect_deadlock (resolve_calls j ps)) \<and>
     length (resolve_calls 0 ps) + 0 = length ps"
    by (simp add: detect_deadlock_Nil)
  then show ?case by blast
next
  case (Suc n)
  show ?case
  proof (cases "detect_deadlock ps")
    case False
    then have "\<not> detect_deadlock (resolve_calls 0 ps) \<and>
       (\<forall>j<0. detect_deadlock (resolve_calls j ps)) \<and>
       length (resolve_calls 0 ps) + 0 = length ps"
      by simp
    then show ?thesis by blast
  next
    case True
    let ?ps1 = "snd (resolve ps)"
    from length_resolve[OF True] have l1: "Suc (length ?ps1) = length ps" .
    with Suc.hyps(2) have "n = length ?ps1" by simp
    from Suc.hyps(1)[OF this] obtain k where k: "k \<le> length ?ps1"
      and free: "\<not> detect_deadlock (resolve_calls k ?ps1)"
      and before: "\<forall>j<k. detect_deadlock (resolve_calls j ?ps1)"
      and len: "length (resolve_calls k ?ps1) + k = length ?ps1"
      by blast
    have "\<forall>j<Suc k. detect_deadlock (resolve_calls j ps)"
    proof (intro allI impI)
      fix j assume "j < Suc k"
      then show "detect_deadlock (resolve_calls j ps)"
        using True before by (cases j) simp_all
    qed
    moreover from free have "\<not> detect_deadlock (resolve_calls (Suc k) ps)" by simp
    moreover from len l1 have "length (resolve_calls (Suc k) ps) + Suc k = length ps" by simp
    moreover from k l1 have "Suc k \<le> length ps" by simp
    ultimately show ?thesis by blast
  qed
qed

lemma two_bystanders_cycle: "has_n_process_cycle 2 deadlock_with_two_bystanders"
proof -
  have "distinct two_process_deadlock \<and> set two_process_deadlock \<subseteq> set deadlock_with_two_bystanders \<and>
      length two_process_deadlock = 2 \<and> (0::nat) < 2 \<and>
      map (requests \<circ> snd) two_process_deadlock = rotate1 (map (holds \<circ> snd) two_process_deadlock)"
    by (simp add: two_process_deadlock_def deadlock_with_two_bystanders_def)
  then show ?thesis unfolding has_n_process_cycle_def by blast
qed

section \<open>The handlers\<close>

lemma truthy_iff: "truthy x \<longleftrightarrow> (\<exists>s. x = Some s \<and> s \<noteq> [])"
  by (cases x) (simp_all add: truthy_def)


lemma handle_post_valid:
  assumes "process_name data = Some name" and "name \<noteq> []"
    and "holds_resource data = Some h" and "h \<noteq> []"
    and "requests_resource data = Some r" and "r \<noteq> []"
  shows "handle_processes POST data ps =
    ((Success_process name, 200), setitem ps name \<lparr>holds = h, requests = r\<rparr>)"
  using assms by (simp add: handle_processes_def truthy_def)

lemma chat_object:
  "chat generate_content (Object data) ps =
     (if message data = None \<or> message data = Some []
      then ((Error ''Message is required'', 400), ps)
      else (case generate_content (ps, the (message data)) of
              Inr text \<Rightarrow> ((Chat_response text, 200), ps)
            | Inl e \<Rightarrow> ((Chat_error e fallback, 500), ps)))"
  by (cases "message data") (simp_all add: chat_def)

lemma wf_store_handlers:
  assumes "wf_store ps"
  shows "wf_store (snd (handle_processes m data ps))" and "wf_store (snd (detect ps))"
    and "wf_store (snd (resolve ps))" and "wf_store (snd (chat generate_content body ps))"
proof -
  show "wf_store (snd (handle_processes m data ps))"
    using assms by (cases m) (simp_all add: handle_processes_def wf_store_setitem, simp add: wf_store_def)
  show "wf_store (snd (detect ps))"
    using assms by (simp add: detect_def)
  show "wf_store (snd (resolve ps))"
    using assms by (auto simp: resolve_def Let_def wf_store_delitem split: option.splits)
  show "wf_store (snd (chat generate_content body ps))"
    using assms by (simp add: chat_def Let_def split: sum.splits chat_body.splits)
qed

section \<open>The claims of the specification\<close>

text \<open>
  C1.  For every table, \<^verbatim>\<open>detect_deadlock\<close> returns true if and only if the directed graph
  with, for each process entry, one edge from its held resource to the process and one
  edge from the process to its requested resource has a directed cycle, a self-loop
  counting as one.  So it returns false on every non-empty table without a cycle and true
  on every table whose edges form a cycle; on the empty table it returns false.
\<close>
theorem detect_deadlock_iff_cycle:
  "(detect_deadlock ps \<longleftrightarrow> has_directed_cycle (rag_edges ps)) \<and> \<not> detect_deadlock []"
proof (cases "ps = []")
  case True
  then show ?thesis
    by (simp add: detect_deadlock_def rag_edges_def has_directed_cycle_empty)
next
  case False
  have "closed_graph (build_graph [] ps)"
    by (rule closed_build_graph) (rule closed_graph_empty)
  then have "simple_cycles (build_graph [] ps) \<noteq> [] \<longleftrightarrow>
      has_directed_cycle (edges (build_graph [] ps))"
    by (rule simple_cycles_nonempty_iff)
  also have "edges (build_graph [] ps) = rag_edges ps"
    by (simp add: edges_build_graph edges_empty)
  finally show ?thesis
    using False by (simp add: detect_deadlock_def)
qed

theorem detect_deadlock_iff_cycle_witness:
  "has_directed_cycle (rag_edges two_process_deadlock) \<and>
   \<not> has_directed_cycle (rag_edges waiting_chain)"
proof -
  have "\<not> detect_deadlock waiting_chain" by code_simp
  then show ?thesis
    using detect_two_process_deadlock detect_deadlock_iff_cycle[of two_process_deadlock]
      detect_deadlock_iff_cycle[of waiting_chain]
    by blast
qed

text \<open>
  C2.  On a non-empty table in which the detector finds a cycle, the process that one call
  of \<^verbatim>\<open>resolve\<close> removes is the first entry, in the iteration order of the table, whose
  held-resource name has the minimum length among all entries: every entry before it
  holds a strictly longer name, and every entry after it a name at least as long.
\<close>
theorem resolve_removes_first_shortest_holder:
  assumes "wf_store ps" and "ps \<noteq> []" and "detect_deadlock ps"
  shows "\<exists>ps1 t d ps2. ps = ps1 @ (t, d) # ps2 \<and>
     resolve ps = ((Resolved t (ps1 @ ps2), 200), ps1 @ ps2) \<and>
     (\<forall>(k, e) \<in> set ps1. length (holds d) < length (holds e)) \<and>
     (\<forall>(k, e) \<in> set ps2. length (holds d) \<le> length (holds e))"
  using assms(1,3) by (rule resolve_victim_entry)

theorem resolve_removes_first_shortest_holder_witness:
  "wf_store two_process_deadlock \<and> two_process_deadlock \<noteq> [] \<and>
   detect_deadlock two_process_deadlock \<and>
   (\<exists>ps1 t d ps2. two_process_deadlock = ps1 @ (t, d) # ps2 \<and>
     resolve two_process_deadlock = ((Resolved t (ps1 @ ps2), 200), ps1 @ ps2) \<and>
     (\<forall>(k, e) \<in> set ps1. length (holds d) < length (holds e)) \<and>
     (\<forall>(k, e) \<in> set ps2. length (holds d) \<le> length (holds e)))"
proof -
  have ne: "two_process_deadlock \<noteq> []" by (simp add: two_process_deadlock_def)
  show ?thesis
    using resolve_removes_first_shortest_holder
      [OF wf_two_process_deadlock ne detect_two_process_deadlock]
      wf_two_process_deadlock ne detect_two_process_deadlock
    by blast
qed

text \<open>
  C3.  On a table in which the detector finds a cycle, one call of \<^verbatim>\<open>resolve\<close> removes
  exactly one process, a key of the table before the call: the table has one entry
  fewer, the removed key is gone, every other key has the entry it had, in the order it
  had, and the response reports the resolution with the name of the removed process.
\<close>
theorem resolve_removes_exactly_one:
  assumes "wf_store ps" and "detect_deadlock ps"
  shows "\<exists>t ps'. resolve ps = ((Resolved t ps', 200), ps') \<and> t \<in> set (map fst ps) \<and>
     Suc (length ps') = length ps \<and> getitem ps' t = None \<and>
     (\<forall>k. k \<noteq> t \<longrightarrow> getitem ps' k = getitem ps k) \<and>
     ps' = filter (\<lambda>e. fst e \<noteq> t) ps"
proof -
  from resolve_deadlock[OF assms(2)] obtain t pre post
    where r: "resolve ps = ((Resolved t (delitem ps t), 200), delitem ps t)"
      and keys: "map fst ps = pre @ t # post"
    by blast
  from keys have mem: "t \<in> set (map fst ps)" by simp
  then have "Suc (length (delitem ps t)) = length ps" by (rule length_delitem)
  moreover from assms(1) have "getitem (delitem ps t) t = None" by (rule getitem_delitem_same)
  moreover have "\<forall>k. k \<noteq> t \<longrightarrow> getitem (delitem ps t) k = getitem ps k"
    by (simp add: getitem_delitem_other)
  moreover from assms(1) have "delitem ps t = filter (\<lambda>e. fst e \<noteq> t) ps" by (rule delitem_filter)
  ultimately show ?thesis using r mem by blast
qed

theorem resolve_removes_exactly_one_witness:
  "wf_store deadlock_with_bystander \<and> detect_deadlock deadlock_with_bystander \<and>
   (\<exists>t ps'. resolve deadlock_with_bystander = ((Resolved t ps', 200), ps') \<and>
     t \<in> set (map fst deadlock_with_bystander) \<and>
     Suc (length ps') = length deadlock_with_bystander \<and> getitem ps' t = None \<and>
     (\<forall>k. k \<noteq> t \<longrightarrow> getitem ps' k = getitem deadlock_with_bystander k) \<and>
     ps' = filter (\<lambda>e. fst e \<noteq> t) deadlock_with_bystander)"
  using resolve_removes_exactly_one
    [OF wf_deadlock_with_bystander detect_deadlock_with_bystander]
    wf_deadlock_with_bystander detect_deadlock_with_bystander
  by blast

text \<open>
  C4, as the code has it.  On a table with an \<open>n\<close>-process cycle, the calls of \<^verbatim>\<open>resolve\<close> in
  a row reach a table on which the detector returns false after at least one call and at
  most as many calls as the table has processes, which are at least \<open>n\<close>; the detector
  returns true before every one of these calls, and each of them removes one process.
  When the \<open>n\<close> processes of the cycle are the whole table, that is at most \<open>n\<close> calls.
\<close>
theorem resolve_calls_bounded_by_table_size:
  assumes "has_n_process_cycle n ps"
  shows "n \<le> length ps \<and>
    (\<exists>k. 0 < k \<and> k \<le> length ps \<and> \<not> detect_deadlock (resolve_calls k ps) \<and>
       (\<forall>j<k. detect_deadlock (resolve_calls j ps)) \<and>
       length (resolve_calls k ps) + k = length ps)"
proof -
  from assms have "detect_deadlock ps"
    by (simp add: detect_deadlock_has_cycle has_n_process_cycle_has_cycle)
  moreover obtain k where k: "k \<le> length ps" "\<not> detect_deadlock (resolve_calls k ps)"
    "\<forall>j<k. detect_deadlock (resolve_calls j ps)" "length (resolve_calls k ps) + k = length ps"
    using resolve_calls_first_free[of ps] by blast
  ultimately have "0 < k" by (cases k) auto
  with k has_n_process_cycle_le[OF assms] show ?thesis by blast
qed

theorem resolve_calls_bounded_by_table_size_witness:
  "has_n_process_cycle 2 deadlock_with_two_bystanders \<and>
   2 \<le> length deadlock_with_two_bystanders \<and>
   (\<exists>k. 0 < k \<and> k \<le> length deadlock_with_two_bystanders \<and>
      \<not> detect_deadlock (resolve_calls k deadlock_with_two_bystanders) \<and>
      (\<forall>j<k. detect_deadlock (resolve_calls j deadlock_with_two_bystanders)) \<and>
      length (resolve_calls k deadlock_with_two_bystanders) + k =
        length deadlock_with_two_bystanders)"
  using resolve_calls_bounded_by_table_size[OF two_bystanders_cycle] two_bystanders_cycle
  by blast

text \<open>
  The number of calls is not bounded by the size of the cycle: the table of the
  two-process deadlock and two bystanders, which hold resources of shorter names, has a
  two-process cycle, and the detector still returns true after no, one and two calls.
\<close>
theorem cycle_size_bound_counterexample:
  "has_n_process_cycle 2 deadlock_with_two_bystanders \<and>
   detect_deadlock (resolve_calls 0 deadlock_with_two_bystanders) \<and>
   detect_deadlock (resolve_calls 1 deadlock_with_two_bystanders) \<and>
   detect_deadlock (resolve_calls 2 deadlock_with_two_bystanders)"
proof -
  have "detect_deadlock (resolve_calls 0 deadlock_with_two_bystanders) \<and>
   detect_deadlock (resolve_calls 1 deadlock_with_two_bystanders) \<and>
   detect_deadlock (resolve_calls 2 deadlock_with_two_bystanders)"
    by code_simp
  with two_bystanders_cycle show ?thesis by simp
qed



text \<open>
  C6.  Round trip: after a valid add (name, held and requested resource non-empty) to any
  table, a GET of \<^verbatim>\<open>/api/processes\<close> returns the table, and the table has under that name
  exactly the held and the requested resource that were added.
\<close>
theorem add_then_read_round_trip:
  assumes "name \<noteq> []" and "h \<noteq> []" and "r \<noteq> []"
  shows "\<exists>ps'. handle_processes POST
       \<lparr>process_name = Some name, holds_resource = Some h, requests_resource = Some r\<rparr> ps =
         ((Success_process name, 200), ps') \<and>
     handle_processes GET data ps' = ((Processes ps', 200), ps') \<and>
     getitem ps' name = Some \<lparr>holds = h, requests = r\<rparr>"
proof -
  let ?ps' = "setitem ps name \<lparr>holds = h, requests = r\<rparr>"
  have "handle_processes POST
       \<lparr>process_name = Some name, holds_resource = Some h, requests_resource = Some r\<rparr> ps =
         ((Success_process name, 200), ?ps')"
    using assms by (intro handle_post_valid) simp_all
  moreover have "handle_processes GET data ?ps' = ((Processes ?ps', 200), ?ps')"
    by (simp add: handle_processes_def)
  moreover have "getitem ?ps' name = Some \<lparr>holds = h, requests = r\<rparr>"
    by (rule getitem_setitem_same)
  ultimately show ?thesis by blast
qed

theorem add_then_read_round_trip_witness:
  "\<exists>ps'. handle_processes POST
       \<lparr>process_name = Some ''P1'', holds_resource = Some ''R9'', requests_resource = Some ''R1''\<rparr>
       two_process_deadlock = ((Success_process ''P1'', 200), ps') \<and>
     handle_processes GET
       \<lparr>process_name = None, holds_resource = None, requests_resource = None\<rparr> ps' =
         ((Processes ps', 200), ps') \<and>
     getitem ps' ''P1'' = Some \<lparr>holds = ''R9'', requests = ''R1''\<rparr>"
  using add_then_read_round_trip[of "''P1''" "''R9''" "''R1''" two_process_deadlock
      "\<lparr>process_name = None, holds_resource = None, requests_resource = None\<rparr>"]
  by simp

text \<open>
  C7.  \<^verbatim>\<open>resolve\<close> on the empty table answers with the message that there are no
  processes to resolve, reports no resolution, and leaves the table empty.
\<close>
theorem resolve_empty_store:
  "resolve [] = ((Message ''No processes to resolve'', 200), []) \<and>
   (\<forall>t ps'. fst (fst (resolve [])) \<noteq> Resolved t ps')"
  by (simp add: resolve_def)

text \<open>
  C8, as the code has it.  A POST to \<^verbatim>\<open>/api/chat\<close> whose body is a JSON object with an
  absent or empty message is answered with status 400.  The status is 500 exactly when an
  exception is raised in the handler: the body cannot be read as JSON, or it is not a JSON
  object, or the message is non-empty and the call of the external model fails.  Each of
  these responses carries the text of the exception and the fixed fallback.  The table
  is never changed.
\<close>
theorem chat_status_codes:
  "(\<forall>data. body = Object data \<and> (message data = None \<or> message data = Some []) \<longrightarrow>
      chat generate_content body ps = ((Error ''Message is required'', 400), ps)) \<and>
   (snd (fst (chat generate_content body ps)) = 500 \<longleftrightarrow>
      (\<exists>e. body = Unreadable e) \<or> (\<exists>e. body = Not_object e) \<or>
      (\<exists>data m e. body = Object data \<and> message data = Some m \<and> m \<noteq> [] \<and>
         generate_content (ps, m) = Inl e)) \<and>
   (\<forall>e. body = Unreadable e \<or> body = Not_object e \<or>
      (\<exists>data m. body = Object data \<and> message data = Some m \<and> m \<noteq> [] \<and>
         generate_content (ps, m) = Inl e) \<longrightarrow>
      chat generate_content body ps = ((Chat_error e fallback, 500), ps)) \<and>
   snd (chat generate_content body ps) = ps"
proof (cases body)
  case (Unreadable e)
  then show ?thesis by (simp add: chat_def)
next
  case (Not_object e)
  then show ?thesis by (simp add: chat_def)
next
  case (Object data)
  show ?thesis
  proof (cases "message data = None \<or> message data = Some []")
    case True
    with Object show ?thesis by (auto simp: chat_object)
  next
    case False
    then obtain m where m: "message data = Some m" "m \<noteq> []" by (cases "message data") auto
    show ?thesis
    proof (cases "generate_content (ps, m)")
      case (Inl e)
      with Object m show ?thesis by (simp add: chat_object)
    next
      case (Inr answer)
      with Object m show ?thesis by (simp add: chat_object)
    qed
  qed
qed

theorem chat_status_codes_witness:
  "chat (\<lambda>p. Inl ''quota exceeded'') (Object \<lparr>message = None\<rparr>) two_process_deadlock =
     ((Error ''Message is required'', 400), two_process_deadlock) \<and>
   chat (\<lambda>p. Inl ''quota exceeded'') (Object \<lparr>message = Some ''why?''\<rparr>) two_process_deadlock =
     ((Chat_error ''quota exceeded'' fallback, 500), two_process_deadlock) \<and>
   snd (fst (chat (\<lambda>p. Inr ''a cycle'') (Object \<lparr>message = Some ''why?''\<rparr>)
     two_process_deadlock)) \<noteq> 500 \<and>
   snd (fst (chat (\<lambda>p. Inr ''a cycle'') (Not_object ''no attribute get'')
     two_process_deadlock)) = 500"
  using chat_status_codes[of "Object \<lparr>message = None\<rparr>" "\<lambda>p. Inl ''quota exceeded''"
      two_process_deadlock]
    chat_status_codes[of "Object \<lparr>message = Some ''why?''\<rparr>" "\<lambda>p. Inl ''quota exceeded''"
      two_process_deadlock]
    chat_status_codes[of "Object \<lparr>message = Some ''why?''\<rparr>" "\<lambda>p. Inr ''a cycle''"
      two_process_deadlock]
    chat_status_codes[of "Not_object ''no attribute get''" "\<lambda>p. Inr ''a cycle''"
      two_process_deadlock]
  by simp

text \<open>
  A body that is JSON but not an object has no message field, and it is answered with
  status 500 and the fallback although the external model would answer.
\<close>
theorem chat_not_object_counterexample:
  "chat (\<lambda>p. Inr ''a cycle'') (Not_object ''list object has no attribute get'')
     two_process_deadlock =
   ((Chat_error ''list object has no attribute get'' fallback, 500), two_process_deadlock)"
  by (simp add: chat_def)

text \<open>
  C9.  The process that \<^verbatim>\<open>resolve\<close> removes from a table with a cycle has a held-resource
  name of minimum length among all the processes of the table, whether they are on a
  cycle or not, and the table it leaves is the table without that process.  On the
  two-process deadlock with the bystander \<open>P3\<close>, \<^verbatim>\<open>resolve\<close> removes \<open>P3\<close>, which is on no
  cycle, and the table it leaves, the two-process deadlock, still has a cycle.
\<close>
theorem resolve_victim_over_whole_store:
  "(wf_store ps \<and> detect_deadlock ps \<longrightarrow>
      (\<exists>t d ps'. resolve ps = ((Resolved t ps', 200), ps') \<and> (t, d) \<in> set ps \<and>
         ps' = filter (\<lambda>e. fst e \<noteq> t) ps \<and> getitem ps' t = None \<and>
         Suc (length ps') = length ps \<and>
         (\<forall>(k, e) \<in> set ps. length (holds d) \<le> length (holds e)))) \<and>
   wf_store deadlock_with_bystander \<and> detect_deadlock deadlock_with_bystander \<and>
   getitem deadlock_with_bystander ''P3'' = Some \<lparr>holds = ''A'', requests = ''B''\<rparr> \<and>
   resolve deadlock_with_bystander =
     ((Resolved ''P3'' two_process_deadlock, 200), two_process_deadlock) \<and>
   two_process_deadlock = filter (\<lambda>e. fst e \<noteq> ''P3'') deadlock_with_bystander \<and>
   getitem two_process_deadlock ''P3'' = None \<and>
   (''P3'', ''P3'') \<notin> (rag_edges deadlock_with_bystander)\<^sup>+ \<and>
   detect_deadlock two_process_deadlock \<and>
   has_directed_cycle (rag_edges two_process_deadlock)"
proof (intro conjI impI)
  assume a: "wf_store ps \<and> detect_deadlock ps"
  then obtain ps1 t d ps2 where ps: "ps = ps1 @ (t, d) # ps2"
    and r: "resolve ps = ((Resolved t (ps1 @ ps2), 200), ps1 @ ps2)"
    and pre: "\<forall>(k, e) \<in> set ps1. length (holds d) < length (holds e)"
    and post: "\<forall>(k, e) \<in> set ps2. length (holds d) \<le> length (holds e)"
    using resolve_victim_entry[of ps] by blast
  from a resolve_deadlock[of ps] r have del: "ps1 @ ps2 = delitem ps t" by auto
  from ps have mem: "(t, d) \<in> set ps" by simp
  then have "t \<in> set (map fst ps)" by force
  then have "Suc (length (ps1 @ ps2)) = length ps" unfolding del by (rule length_delitem)
  moreover from a have "ps1 @ ps2 = filter (\<lambda>e. fst e \<noteq> t) ps"
    unfolding del by (simp add: delitem_filter)
  moreover from a have "getitem (ps1 @ ps2) t = None"
    unfolding del by (simp add: getitem_delitem_same)
  moreover from pre post have "\<forall>(k, e) \<in> set ps. length (holds d) \<le> length (holds e)"
    unfolding ps by fastforce
  ultimately show "\<exists>t d ps'. resolve ps = ((Resolved t ps', 200), ps') \<and> (t, d) \<in> set ps \<and>
         ps' = filter (\<lambda>e. fst e \<noteq> t) ps \<and> getitem ps' t = None \<and>
         Suc (length ps') = length ps \<and>
         (\<forall>(k, e) \<in> set ps. length (holds d) \<le> length (holds e))"
    using r mem by blast
next
  show "wf_store deadlock_with_bystander" by (rule wf_deadlock_with_bystander)
  show "detect_deadlock deadlock_with_bystander" by (rule detect_deadlock_with_bystander)
  show "getitem deadlock_with_bystander ''P3'' = Some \<lparr>holds = ''A'', requests = ''B''\<rparr>"
    by (simp add: getitem_def deadlock_with_bystander_def)
  show "resolve deadlock_with_bystander =
     ((Resolved ''P3'' two_process_deadlock, 200), two_process_deadlock)"
    by (rule resolve_deadlock_with_bystander)
  show "two_process_deadlock = filter (\<lambda>e. fst e \<noteq> ''P3'') deadlock_with_bystander"
    by (simp add: two_process_deadlock_def deadlock_with_bystander_def)
  show "getitem two_process_deadlock ''P3'' = None"
    by (simp add: getitem_def two_process_deadlock_def)
  show "(''P3'', ''P3'') \<notin> (rag_edges deadlock_with_bystander)\<^sup>+"
    by (rule bystander_on_no_cycle)
  show "detect_deadlock two_process_deadlock" by (rule detect_two_process_deadlock)
  then show "has_directed_cycle (rag_edges two_process_deadlock)"
    by (simp add: detect_deadlock_has_cycle)
qed

theorem resolve_victim_over_whole_store_witness:
  "wf_store deadlock_with_bystander \<and> detect_deadlock deadlock_with_bystander \<and>
   (\<exists>t d ps'. resolve deadlock_with_bystander = ((Resolved t ps', 200), ps') \<and>
      (t, d) \<in> set deadlock_with_bystander \<and>
      ps' = filter (\<lambda>e. fst e \<noteq> t) deadlock_with_bystander \<and> getitem ps' t = None \<and>
      Suc (length ps') = length deadlock_with_bystander \<and>
      (\<forall>(k, e) \<in> set deadlock_with_bystander. length (holds d) \<le> length (holds e)))"
  using resolve_victim_over_whole_store[of deadlock_with_bystander]
  by blast

text \<open>
  C10.  \<^verbatim>\<open>detect\<close> leaves the table as it was, for every table; and \<^verbatim>\<open>resolve\<close> on a
  non-empty table without a cycle reports that nothing was resolved and leaves the table
  as it was.
\<close>
theorem detect_and_failed_resolve_keep_store:
  "snd (detect ps) = ps \<and> fst (detect ps) = (Deadlock (detect_deadlock ps), 200) \<and>
   (ps \<noteq> [] \<and> \<not> detect_deadlock ps \<longrightarrow>
      resolve ps = ((Not_resolved ''No deadlock detected'', 200), ps))"
  by (simp add: detect_def resolve_def)

theorem detect_and_failed_resolve_keep_store_witness:
  "waiting_chain \<noteq> [] \<and> \<not> detect_deadlock waiting_chain \<and>
   snd (detect waiting_chain) = waiting_chain \<and>
   resolve waiting_chain = ((Not_resolved ''No deadlock detected'', 200), waiting_chain)"
proof -
  have ne: "waiting_chain \<noteq> []" by (simp add: waiting_chain_def)
  have nd: "\<not> detect_deadlock waiting_chain" by code_simp
  from detect_and_failed_resolve_keep_store[of waiting_chain] ne nd show ?thesis by simp
qed

end
